theory Spec2Isabelle
  imports Main "HOL-Library.Finite_Map"
begin

section \<open>Ordered sets\<close>

text \<open>
  The selectors of the thread view keep their results in ordered sets of the
  immutable-collections library: duplicate-free collections that remember the order
  of insertion. They are lists here; \<open>union\<close> adds the elements of its argument one
  after the other at the end, skipping those already present, \<open>delete\<close> and
  \<open>subtract\<close> keep the order of what remains.
\<close>

type_synonym ordered_set = "string list"

definition os_includes :: "ordered_set \<Rightarrow> string \<Rightarrow> bool" where
  "os_includes s x = (x \<in> set s)"

definition os_add :: "string \<Rightarrow> ordered_set \<Rightarrow> ordered_set" where
  "os_add x s = (if x \<in> set s then s else s @ [x])"

definition os_union :: "ordered_set \<Rightarrow> string list \<Rightarrow> ordered_set" where
  "os_union s xs = fold os_add xs s"

definition os_delete :: "ordered_set \<Rightarrow> string \<Rightarrow> ordered_set" where
  "os_delete s x = filter (\<lambda>y. y \<noteq> x) s"

definition os_subtract :: "ordered_set \<Rightarrow> ordered_set \<Rightarrow> ordered_set" where
  "os_subtract s t = filter (\<lambda>y. y \<notin> set t) s"

section \<open>The indexes of the store\<close>

text \<open>
  \<open>state.contexts.inReplyTos\<close> maps a status id to the id it replies to,
  \<open>state.contexts.replies\<close> maps a status id to the ordered ids of its replies.
  Both are finite maps read with \<open>get\<close>.
\<close>

type_synonym parent_index = "(string, string) fmap"
type_synonym child_index = "(string, string list) fmap"

section \<open>getAncestorsIds\<close>

text \<open>
  The loop \<open>while (id && !ancestorsIds.includes(id))\<close>: the current id is absent
  (\<open>None\<close>) when the last lookup found nothing, and an empty string is falsy as well.
  Each round puts the id in front of the result and looks its parent up. (Both
  selectors are wrapped in \<open>createSelector\<close>, which only caches the last result of the
  function given to it; the functions themselves are modelled.)
\<close>

function ancestors_loop :: "parent_index \<Rightarrow> ordered_set \<Rightarrow> string option \<Rightarrow> ordered_set" where
  "ancestors_loop inReplyTos ancestorsIds cur =
     (case cur of
        None \<Rightarrow> ancestorsIds
      | Some i \<Rightarrow>
          if i \<noteq> [] \<and> \<not> os_includes ancestorsIds i
          then ancestors_loop inReplyTos (os_union [i] ancestorsIds) (fmlookup inReplyTos i)
          else ancestorsIds)"
  by pat_completeness auto
termination
proof (relation "measure (\<lambda>(m, acc, cur).
    card (fmdom' m - set acc) + (case cur of None \<Rightarrow> 0 | Some _ \<Rightarrow> 1))", goal_cases)
  case 1
  show ?case by simp
next
  case (2 m acc cur i)
  have grow: "set (os_union [i] acc) = insert i (set acc)"
    unfolding os_union_def by (induction acc rule: rev_induct) (auto simp: os_add_def)
  show ?case
  proof (cases "fmlookup m i")
    case None
    have "card (fmdom' m - set (os_union [i] acc)) \<le> card (fmdom' m - set acc)"
      by (intro card_mono) (auto simp: grow)
    with None 2 show ?thesis by simp
  next
    case (Some p)
    then have "i \<in> fmdom' m" by (simp add: fmdom'I)
    with 2 have "fmdom' m - set (os_union [i] acc) \<subset> fmdom' m - set acc"
      by (auto simp: grow os_includes_def)
    then have "card (fmdom' m - set (os_union [i] acc)) < card (fmdom' m - set acc)"
      by (intro psubset_card_mono) auto
    with Some 2 show ?thesis by simp
  qed
qed

definition getAncestorsIds :: "string option \<Rightarrow> parent_index \<Rightarrow> ordered_set" where
  "getAncestorsIds statusId inReplyTos = ancestors_loop inReplyTos [] statusId"

section \<open>getDescendantsIds\<close>

text \<open>
  \<open>replies.reverse().forEach(reply => ids.unshift(reply))\<close>: the replies are put at
  the front of the work list one at a time, last reply first.
\<close>

definition unshift_all :: "string list \<Rightarrow> string list \<Rightarrow> string list" where
  "unshift_all replies ids = fold (\<lambda>reply q. reply # q) (rev replies) ids"

text \<open>
  The loop \<open>while (ids.length > 0)\<close>. Both \<open>break\<close>s leave the loop with the result
  as it stands; nothing bounds the number of rounds, so the loop is a partial
  function and \<open>None\<close> stands for a run that never ends.
\<close>

partial_function (option) descendants_loop ::
  "child_index \<Rightarrow> string \<Rightarrow> string list \<Rightarrow> ordered_set \<Rightarrow> ordered_set option" where
  "descendants_loop contextReplies statusId ids descendantsIds =
     (case ids of
        [] \<Rightarrow> Some descendantsIds
      | i # rest \<Rightarrow>
          if i = [] then Some descendantsIds
          else if os_includes descendantsIds i then Some descendantsIds
          else descendants_loop contextReplies statusId
                 (case fmlookup contextReplies i of
                    None \<Rightarrow> rest
                  | Some replies \<Rightarrow> unshift_all replies rest)
                 (if statusId \<noteq> i then os_union descendantsIds [i] else descendantsIds))"

definition getDescendantsIds :: "string \<Rightarrow> child_index \<Rightarrow> ordered_set option" where
  "getDescendantsIds statusId contextReplies =
     descendants_loop contextReplies statusId [statusId] []"

section \<open>The selector of the Thread component\<close>

text \<open>
  With no status both sets stay empty. Otherwise the ancestors start at the parent of
  the status, the descendants at the status itself, and the two results are cleaned:
  the ancestors lose the status and every descendant, the descendants lose the status
  and every ancestor that is left.
\<close>

definition Thread_ids ::
  "string option \<Rightarrow> parent_index \<Rightarrow> child_index \<Rightarrow> (ordered_set \<times> ordered_set) option" where
  "Thread_ids status inReplyTos replies =
     (case status of
        None \<Rightarrow> Some ([], [])
      | Some statusId \<Rightarrow>
          let ancestorsIds0 = getAncestorsIds (fmlookup inReplyTos statusId) inReplyTos
          in (case getDescendantsIds statusId replies of
                None \<Rightarrow> None
              | Some descendantsIds0 \<Rightarrow>
                  let ancestorsIds = os_subtract (os_delete ancestorsIds0 statusId) descendantsIds0;
                      descendantsIds = os_subtract (os_delete descendantsIds0 statusId) ancestorsIds
                  in Some (ancestorsIds, descendantsIds)))"

text \<open>The three operations under the names of the specification.\<close>

definition resolveAncestors :: "string \<Rightarrow> parent_index \<Rightarrow> ordered_set" where
  "resolveAncestors focalId parentIndex = getAncestorsIds (fmlookup parentIndex focalId) parentIndex"

definition resolveDescendants :: "string \<Rightarrow> child_index \<Rightarrow> ordered_set option" where
  "resolveDescendants focalId childIndex = getDescendantsIds focalId childIndex"

definition resolveThread ::
  "string \<Rightarrow> parent_index \<Rightarrow> child_index \<Rightarrow> (ordered_set \<times> ordered_set) option" where
  "resolveThread focalId parentIndex childIndex = Thread_ids (Some focalId) parentIndex childIndex"

section \<open>Notions of the specification\<close>

text \<open>The links of the two indexes as relations, for reachability and cycles.\<close>

definition parent_rel :: "parent_index \<Rightarrow> (string \<times> string) set" where
  "parent_rel m = {(x, p). fmlookup m x = Some p}"

definition child_rel :: "child_index \<Rightarrow> (string \<times> string) set" where
  "child_rel c = {(x, y). \<exists>rs. fmlookup c x = Some rs \<and> y \<in> set rs}"

definition index_ids :: "parent_index \<Rightarrow> string set" where
  "index_ids m = fmdom' m \<union> fmran' m"

text \<open>
  The parent chain of an id, nearest parent first, up to an id without parent, and the
  depth of an id: the number of links up to there.
\<close>

inductive parent_chain :: "parent_index \<Rightarrow> string \<Rightarrow> string list \<Rightarrow> bool" where
  chain_root: "fmlookup m x = None \<Longrightarrow> parent_chain m x []"
| chain_step: "fmlookup m x = Some p \<Longrightarrow> parent_chain m p ps \<Longrightarrow> parent_chain m x (p # ps)"

inductive has_depth :: "parent_index \<Rightarrow> string \<Rightarrow> nat \<Rightarrow> bool" where
  depth_root: "fmlookup m x = None \<Longrightarrow> has_depth m x 0"
| depth_step: "fmlookup m x = Some p \<Longrightarrow> has_depth m p n \<Longrightarrow> has_depth m x (Suc n)"

text \<open>
  A reply tree, its pre-order flattening, and what it means for a child index to hold
  that tree: every node has the roots of its subtrees as replies, in their order (an
  id without replies may be absent from the index).
\<close>

datatype rtree = Node string "rtree list"

fun root :: "rtree \<Rightarrow> string" where
  "root (Node x ts) = x"

fun preorder :: "rtree \<Rightarrow> string list" where
  "preorder (Node x ts) = x # concat (map preorder ts)"

definition replies_of :: "child_index \<Rightarrow> string \<Rightarrow> string list" where
  "replies_of c x = (case fmlookup c x of None \<Rightarrow> [] | Some rs \<Rightarrow> rs)"

fun holds_tree :: "child_index \<Rightarrow> rtree \<Rightarrow> bool" where
  "holds_tree c (Node x ts) = (replies_of c x = map root ts \<and> (\<forall>t \<in> set ts. holds_tree c t))"

definition reply_tree :: "child_index \<Rightarrow> rtree \<Rightarrow> bool" where
  "reply_tree c t = (holds_tree c t \<and> distinct (preorder t) \<and> [] \<notin> set (preorder t))"

section \<open>Example indexes\<close>

definition ex_children :: child_index where
  "ex_children = fmap_of_list [(''A'', [''B'', ''C'']), (''B'', [''D''])]"

definition ex_tree :: rtree where
  "ex_tree = Node ''A'' [Node ''B'' [Node ''D'' []], Node ''C'' []]"

definition ex_parents :: parent_index where
  "ex_parents = fmap_of_list [(''B'', ''A''), (''C'', ''B'')]"

definition cyclic_parents :: parent_index where
  "cyclic_parents = fmap_of_list [(''A'', ''B''), (''B'', ''A'')]"

definition empty_id_parents :: parent_index where
  "empty_id_parents = fmap_of_list [(''B'', [])]"

definition self_children :: child_index where
  "self_children = fmap_of_list [(''A'', [''A''])]"

definition shared_children :: child_index where
  "shared_children = fmap_of_list [(''A'', [''B'', ''C'', ''D'']), (''B'', [''C''])]"

definition crossed_children :: child_index where
  "crossed_children =
     fmap_of_list [(''A'', [''B'', ''C'']), (''B'', [''D'']), (''C'', [''E'', ''D''])]"

definition stale_parents :: parent_index where
  "stale_parents = fmap_of_list [(''A'', ''B''), (''B'', ''C'')]"

definition stale_children :: child_index where
  "stale_children = fmap_of_list [(''A'', [''B''])]"

section \<open>Ordered sets: basic facts\<close>

lemma set_os_union: "set (os_union s xs) = set s \<union> set xs"
  unfolding os_union_def by (induction xs arbitrary: s) (auto simp: os_add_def)

lemma os_union_fresh: "x \<notin> set s \<Longrightarrow> os_union s [x] = s @ [x]"
  by (simp add: os_union_def os_add_def)

lemma os_union_front: "distinct s \<Longrightarrow> x \<notin> set s \<Longrightarrow> os_union [x] s = x # s"
proof -
  have "distinct ys \<Longrightarrow> set ys \<inter> set xs = {} \<Longrightarrow> fold os_add ys xs = xs @ ys" for xs ys
    by (induction ys arbitrary: xs) (auto simp: os_add_def)
  from this [of s "[x]"] show "distinct s \<Longrightarrow> x \<notin> set s \<Longrightarrow> os_union [x] s = x # s"
    by (simp add: os_union_def)
qed

lemma unshift_all_append: "unshift_all replies ids = replies @ ids"
proof -
  have "fold (\<lambda>reply q. reply # q) xs ys = rev xs @ ys" for xs ys :: "string list"
    by (induction xs arbitrary: ys) auto
  then show ?thesis by (simp add: unshift_all_def)
qed

section \<open>One round of the descendants loop\<close>

lemma descendants_loop_Nil: "descendants_loop c f [] acc = Some acc"
  by (subst descendants_loop.simps) simp

lemma descendants_loop_falsy: "descendants_loop c f ([] # rest) acc = Some acc"
  by (subst descendants_loop.simps) simp

lemma descendants_loop_seen:
  "i \<in> set acc \<Longrightarrow> descendants_loop c f (i # rest) acc = Some acc"
  by (subst descendants_loop.simps) (simp add: os_includes_def)

lemma descendants_loop_expand:
  "i \<noteq> [] \<Longrightarrow> i \<notin> set acc \<Longrightarrow>
   descendants_loop c f (i # rest) acc =
   descendants_loop c f (replies_of c i @ rest) (if f \<noteq> i then acc @ [i] else acc)"
  by (subst descendants_loop.simps)
     (simp add: os_includes_def os_union_fresh unshift_all_append replies_of_def
           split: option.splits)

section \<open>Partial correctness of the descendants loop\<close>

text \<open>
  A property that holds at the start and survives every round that expands an id
  holds when the loop returns, whichever way it ends.
\<close>

lemma descendants_loop_invariant:
  assumes run: "descendants_loop c f q acc = Some r"
    and init: "I q acc"
    and step: "\<And>i rest acc. I (i # rest) acc \<Longrightarrow> i \<noteq> [] \<Longrightarrow> i \<notin> set acc \<Longrightarrow>
                 I (replies_of c i @ rest) (if f \<noteq> i then acc @ [i] else acc)"
  shows "\<exists>q'. I q' r"
  using init step
proof (induction rule: descendants_loop.raw_induct [OF _ run])
  case (1 loop c f q acc r)
  note IH = 1(1) and body = 1(2) and inv = 1(3) and step = 1(4)
  show ?case
  proof (cases q)
    case Nil
    with body inv show ?thesis by auto
  next
    case (Cons i rest)
    show ?thesis
    proof (cases "i = [] \<or> i \<in> set acc")
      case True
      with Cons body have "r = acc" by (auto simp: os_includes_def split: if_splits)
      with inv show ?thesis by blast
    next
      case False
      with Cons body
      have next_run: "loop c f (replies_of c i @ rest) (if f \<noteq> i then acc @ [i] else acc) = Some r"
        by (auto simp: os_includes_def os_union_fresh unshift_all_append replies_of_def
                 split: option.splits)
      have "I (replies_of c i @ rest) (if f \<noteq> i then acc @ [i] else acc)"
        using inv Cons False by (intro step) auto
      from IH [OF next_run this step] show ?thesis by blast
    qed
  qed
qed

lemma replies_of_child_rel: "y \<in> set (replies_of c x) \<longleftrightarrow> (x, y) \<in> child_rel c"
  by (cases "fmlookup c x") (simp_all add: replies_of_def child_rel_def)

lemma descendants_loop_sound:
  assumes run: "descendants_loop c f q acc = Some r"
    and init: "\<forall>x \<in> set q \<union> set acc. (f, x) \<in> (child_rel c)\<^sup>*"
  shows "\<forall>x \<in> set r. (f, x) \<in> (child_rel c)\<^sup>*"
proof -
  let ?I = "\<lambda>q acc. \<forall>x \<in> set q \<union> set acc. (f, x) \<in> (child_rel c)\<^sup>*"
  have "\<exists>q'. ?I q' r"
  proof (rule descendants_loop_invariant [where I = ?I, OF run init])
    fix i rest acc
    assume I: "?I (i # rest) acc"
    then have "(f, i) \<in> (child_rel c)\<^sup>*" by simp
    then have "\<forall>y \<in> set (replies_of c i). (f, y) \<in> (child_rel c)\<^sup>*"
      by (auto simp: replies_of_child_rel intro: rtrancl_into_rtrancl)
    with I show "?I (replies_of c i @ rest) (if f \<noteq> i then acc @ [i] else acc)"
      by auto
  qed
  then show ?thesis by blast
qed

section \<open>The descendants loop on a reply tree\<close>

text \<open>
  Taking the root of a tree from the work list, with all ids of the tree fresh, ends
  with the pre-order of the tree appended to the result and the rest of the work list
  untouched; the same for a list of trees at the head of the work list.
\<close>

lemma forest_run:
  assumes tree: "\<And>t q acc. t \<in> set ts \<Longrightarrow> holds_tree c t \<Longrightarrow> distinct (acc @ preorder t) \<Longrightarrow>
            [] \<notin> set (preorder t) \<Longrightarrow> f \<notin> set (preorder t) \<Longrightarrow>
            descendants_loop c f (root t # q) acc = descendants_loop c f q (acc @ preorder t)"
    and "\<forall>t \<in> set ts. holds_tree c t"
    and "distinct (acc @ concat (map preorder ts))"
    and "[] \<notin> set (concat (map preorder ts))"
    and "f \<notin> set (concat (map preorder ts))"
  shows "descendants_loop c f (map root ts @ q) acc =
         descendants_loop c f q (acc @ concat (map preorder ts))"
  using assms
proof (induction ts arbitrary: acc)
  case Nil
  then show ?case by simp
next
  case (Cons t ts)
  have "descendants_loop c f (map root (t # ts) @ q) acc =
        descendants_loop c f (root t # (map root ts @ q)) acc"
    by simp
  also have "\<dots> = descendants_loop c f (map root ts @ q) (acc @ preorder t)"
    using Cons.prems(2-5) by (intro Cons.prems(1)) auto
  also have "\<dots> = descendants_loop c f q ((acc @ preorder t) @ concat (map preorder ts))"
    using Cons.prems(2-5) by (intro Cons.IH Cons.prems(1)) auto
  finally show ?case by simp
qed

lemma tree_run:
  "holds_tree c t \<Longrightarrow> distinct (acc @ preorder t) \<Longrightarrow> [] \<notin> set (preorder t) \<Longrightarrow>
   f \<notin> set (preorder t) \<Longrightarrow>
   descendants_loop c f (root t # q) acc = descendants_loop c f q (acc @ preorder t)"
proof (induction t arbitrary: q acc)
  case (Node x ts)
  have "descendants_loop c f (x # q) acc = descendants_loop c f (replies_of c x @ q) (acc @ [x])"
    using Node.prems by (subst descendants_loop_expand) auto
  also have "\<dots> = descendants_loop c f (map root ts @ q) (acc @ [x])"
    using Node.prems(1) by simp
  also have "\<dots> = descendants_loop c f q ((acc @ [x]) @ concat (map preorder ts))"
    using Node.prems by (intro forest_run Node.IH) auto
  finally show ?case by simp
qed

lemma reply_tree_run:
  assumes "reply_tree c t"
  shows "getDescendantsIds (root t) c = Some (tl (preorder t))"
proof (cases t)
  case (Node f ts)
  with assms have h: "holds_tree c (Node f ts)" "distinct (f # concat (map preorder ts))"
    "[] \<notin> set (f # concat (map preorder ts))"
    by (simp_all add: reply_tree_def)
  have "descendants_loop c f [f] [] = descendants_loop c f (replies_of c f @ []) []"
    using h by (subst descendants_loop_expand) auto
  also have "\<dots> = descendants_loop c f (map root ts @ []) []"
    using h(1) by simp
  also have "\<dots> = descendants_loop c f [] ([] @ concat (map preorder ts))"
    using h by (intro forest_run tree_run) auto
  finally show ?thesis using Node by (simp add: getDescendantsIds_def descendants_loop_Nil)
qed

lemma root_in_preorder: "root t \<in> set (preorder t)"
  by (cases t) simp

lemma holds_tree_reaches:
  "holds_tree c t \<Longrightarrow> y \<in> set (preorder t) \<Longrightarrow> (root t, y) \<in> (child_rel c)\<^sup>*"
proof (induction t)
  case (Node x ts)
  show ?case
  proof (cases "y = x")
    case True
    then show ?thesis by simp
  next
    case False
    with Node.prems obtain s where s: "s \<in> set ts" "y \<in> set (preorder s)" by auto
    with Node.prems have "root s \<in> set (replies_of c x)" by auto
    then have "(x, root s) \<in> child_rel c" by (simp add: replies_of_child_rel)
    moreover have "(root s, y) \<in> (child_rel c)\<^sup>*"
      using Node.IH [OF s(1) _ s(2)] Node.prems s by auto
    ultimately show ?thesis by (simp add: converse_rtrancl_into_rtrancl)
  qed
qed

lemma holds_tree_closed:
  "holds_tree c t \<Longrightarrow> y \<in> set (preorder t) \<Longrightarrow> (y, z) \<in> child_rel c \<Longrightarrow> z \<in> set (preorder t)"
proof (induction t)
  case (Node x ts)
  show ?case
  proof (cases "y = x")
    case True
    with Node.prems have "z \<in> set (map root ts)"
      by (simp add: replies_of_child_rel [symmetric])
    then obtain s where "s \<in> set ts" "z = root s" by auto
    then show ?thesis using root_in_preorder [of s] by auto
  next
    case False
    with Node.prems obtain s where s: "s \<in> set ts" "y \<in> set (preorder s)" by auto
    then have "z \<in> set (preorder s)"
      using Node.IH [OF s(1) _ s(2)] Node.prems by auto
    with s show ?thesis by auto
  qed
qed

lemma holds_tree_reachable_set:
  assumes "holds_tree c t"
  shows "{y. (root t, y) \<in> (child_rel c)\<^sup>*} = set (preorder t)"
proof (intro set_eqI iffI)
  fix y
  assume "y \<in> {y. (root t, y) \<in> (child_rel c)\<^sup>*}"
  then have "(root t, y) \<in> (child_rel c)\<^sup>*" by simp
  then show "y \<in> set (preorder t)"
    by (induction rule: rtrancl_induct)
       (auto simp: root_in_preorder intro: holds_tree_closed [OF assms])
next
  fix y
  assume "y \<in> set (preorder t)"
  then show "y \<in> {y. (root t, y) \<in> (child_rel c)\<^sup>*}"
    using holds_tree_reaches [OF assms] by simp
qed

lemma holds_tree_descendant_set:
  assumes "holds_tree c t"
  shows "{y. (root t, y) \<in> (child_rel c)\<^sup>+} = set (tl (preorder t))"
proof (cases t)
  case (Node f ts)
  with assms have kids: "replies_of c f = map root ts" and sub: "\<forall>s \<in> set ts. holds_tree c s"
    by simp_all
  have "(f, y) \<in> (child_rel c)\<^sup>+ \<longleftrightarrow> y \<in> set (concat (map preorder ts))" for y
  proof
    assume "(f, y) \<in> (child_rel c)\<^sup>+"
    then obtain z where z: "(f, z) \<in> child_rel c" "(z, y) \<in> (child_rel c)\<^sup>*"
      by (meson tranclD)
    then have "z \<in> set (map root ts)"
      using kids by (simp add: replies_of_child_rel [symmetric])
    then obtain s where s: "s \<in> set ts" "z = root s" by auto
    with sub z(2) have "y \<in> set (preorder s)"
      using holds_tree_reachable_set [of c s] by auto
    with s show "y \<in> set (concat (map preorder ts))" by auto
  next
    assume "y \<in> set (concat (map preorder ts))"
    then obtain s where s: "s \<in> set ts" "y \<in> set (preorder s)" by auto
    with sub have "(root s, y) \<in> (child_rel c)\<^sup>*" by (simp add: holds_tree_reaches)
    moreover have "(f, root s) \<in> child_rel c"
      using kids s(1) by (simp add: replies_of_child_rel [symmetric])
    ultimately show "(f, y) \<in> (child_rel c)\<^sup>+" by (rule_tac rtrancl_into_trancl2)
  qed
  with Node show ?thesis by auto
qed

section \<open>A run of the descendants loop that never ends\<close>

text \<open>
  The status itself is never put into the result, so the guard cannot recognise it:
  when its own id is the first of its replies, every round puts it back at the head
  of the work list.
\<close>

lemma descendants_loop_no_result:
  assumes run: "descendants_loop c f q acc = Some r"
  shows "\<not> (f \<noteq> [] \<and> (\<exists>rs. fmlookup c f = Some (f # rs)) \<and> f \<notin> set acc \<and> (\<exists>rest. q = f # rest))"
proof (induction rule: descendants_loop.raw_induct [OF _ run])
  case (1 loop c f q acc r)
  note IH = 1(1) and body = 1(2)
  show ?case
  proof
    assume bad: "f \<noteq> [] \<and> (\<exists>rs. fmlookup c f = Some (f # rs)) \<and> f \<notin> set acc \<and> (\<exists>rest. q = f # rest)"
    then obtain rs rest where rs: "fmlookup c f = Some (f # rs)" and q: "q = f # rest"
      by blast
    from body bad rs q have next_run: "loop c f (f # rs @ rest) acc = Some r"
      by (simp add: os_includes_def unshift_all_append)
    from IH [OF next_run] bad show False by blast
  qed
qed

lemma descendants_loop_diverges:
  assumes "f \<noteq> []" "fmlookup c f = Some (f # rs)" "f \<notin> set acc"
  shows "descendants_loop c f (f # rest) acc = None"
proof (cases "descendants_loop c f (f # rest) acc")
  case None
  then show ?thesis .
next
  case (Some r)
  from descendants_loop_no_result [OF this] assms show ?thesis by blast
qed

section \<open>When the descendants loop returns\<close>

text \<open>
  In every other case the loop returns. A round that expands an id other than the
  status adds a new id to the result, and the ids that can ever be in the work list
  are finitely many; a round that expands the status is followed by a round on its
  first reply, or shortens the work list when it has none.
\<close>

lemma replies_of_range: "set (replies_of c i) \<subseteq> \<Union> (set ` fmran' c)"
  by (cases "fmlookup c i") (auto simp: replies_of_def intro: fmran'I)

lemma finite_reply_ids: "finite (\<Union> (set ` fmran' c))"
  by (simp add: fmran'_alt_def)

lemma descendants_loop_returns:
  assumes ok: "\<not> (f \<noteq> [] \<and> (\<exists>rs. fmlookup c f = Some (f # rs)))"
  shows "\<exists>r. descendants_loop c f q acc = Some r"
proof -
  define U where "U = \<Union> (set ` fmran' c)"
  define todo where "todo = (\<lambda>(q, acc). card ((U \<union> set q) - set acc))"
  define at_focal where "at_focal = (\<lambda>(q :: string list, acc :: string list). if q \<noteq> [] \<and> hd q = f then 1 else (0::nat))"
  define len where "len = (\<lambda>(q :: string list, acc :: string list). length q)"
  have finU: "finite U" by (simp add: U_def finite_reply_ids)
  have "wf (measures [todo, at_focal, len])" by simp
  then show ?thesis
  proof (induction "(q, acc)" arbitrary: q acc rule: wf_induct_rule)
    case less
    show ?case
    proof (cases q)
      case Nil
      then show ?thesis by (simp add: descendants_loop_Nil)
    next
      case (Cons i rest)
      show ?thesis
      proof (cases "i = [] \<or> i \<in> set acc")
        case True
        with Cons show ?thesis by (auto simp: descendants_loop_falsy descendants_loop_seen)
      next
        case False
        let ?q' = "replies_of c i @ rest"
        let ?acc' = "if f \<noteq> i then acc @ [i] else acc"
        have step: "descendants_loop c f q acc = descendants_loop c f ?q' ?acc'"
          using False Cons by (simp add: descendants_loop_expand)
        have sub: "(U \<union> set ?q') - set ?acc' \<subseteq> (U \<union> set q) - set acc"
          using replies_of_range [of c i] Cons by (auto simp: U_def)
        have "((?q', ?acc'), (q, acc)) \<in> measures [todo, at_focal, len]"
        proof (cases "i = f")
          case False
          have "i \<in> (U \<union> set q) - set acc" using Cons \<open>\<not> (i = [] \<or> i \<in> set acc)\<close> by simp
          moreover have "i \<notin> (U \<union> set ?q') - set ?acc'" using False by simp
          ultimately have "(U \<union> set ?q') - set ?acc' \<subset> (U \<union> set q) - set acc"
            using sub by blast
          then have "card ((U \<union> set ?q') - set ?acc') < card ((U \<union> set q) - set acc)"
            using finU by (intro psubset_card_mono) auto
          then show ?thesis by (simp add: todo_def)
        next
          case True
          have le: "card ((U \<union> set ?q') - set ?acc') \<le> card ((U \<union> set q) - set acc)"
            using finU sub by (intro card_mono) auto
          show ?thesis
          proof (cases "replies_of c i")
            case Nil
            with True Cons le show ?thesis
              by (auto simp: todo_def at_focal_def len_def)
          next
            case (Cons r rs)
            with ok True False have "r \<noteq> f"
              by (auto simp: replies_of_def split: option.splits)
            with True Cons \<open>q = i # rest\<close> le show ?thesis
              by (auto simp: todo_def at_focal_def len_def)
          qed
        qed
        from less [OF this] step show ?thesis by simp
      qed
    qed
  qed
qed

lemma resolveDescendants_None_iff:
  "resolveDescendants f c = None \<longleftrightarrow> f \<noteq> [] \<and> (\<exists>rs. fmlookup c f = Some (f # rs))"
proof
  assume "resolveDescendants f c = None"
  then show "f \<noteq> [] \<and> (\<exists>rs. fmlookup c f = Some (f # rs))"
    using descendants_loop_returns [of f c "[f]" "[]"]
    by (auto simp: resolveDescendants_def getDescendantsIds_def)
next
  assume "f \<noteq> [] \<and> (\<exists>rs. fmlookup c f = Some (f # rs))"
  then show "resolveDescendants f c = None"
    by (auto simp: resolveDescendants_def getDescendantsIds_def descendants_loop_diverges)
qed

section \<open>The ancestors loop\<close>

lemmas os_defs = os_includes_def os_union_def os_add_def os_delete_def os_subtract_def

declare ancestors_loop.simps [simp del]

lemma ancestors_loop_None: "ancestors_loop m acc None = acc"
  by (subst ancestors_loop.simps) simp

lemma ancestors_loop_stop:
  "i = [] \<or> i \<in> set acc \<Longrightarrow> ancestors_loop m acc (Some i) = acc"
  by (subst ancestors_loop.simps) (auto simp: os_includes_def)

lemma ancestors_loop_step:
  "i \<noteq> [] \<Longrightarrow> i \<notin> set acc \<Longrightarrow>
   ancestors_loop m acc (Some i) = ancestors_loop m (os_union [i] acc) (fmlookup m i)"
  by (subst ancestors_loop.simps) (simp add: os_includes_def)

lemmas ancestors_loop_eval = ancestors_loop_None ancestors_loop_stop ancestors_loop_step

lemma ancestors_loop_distinct:
  "distinct acc \<Longrightarrow> distinct (ancestors_loop m acc cur)"
proof (induction m acc cur rule: ancestors_loop.induct)
  case (1 m acc cur)
  show ?case
  proof (cases cur)
    case None
    with 1 show ?thesis by (simp add: ancestors_loop_None)
  next
    case (Some i)
    show ?thesis
    proof (cases "i \<noteq> [] \<and> \<not> os_includes acc i")
      case True
      then have u: "os_union [i] acc = i # acc"
        using "1.prems" by (simp add: os_union_front os_includes_def)
      have "distinct (ancestors_loop m (os_union [i] acc) (fmlookup m i))"
        using "1.IH" [OF Some True] True "1.prems" by (simp add: u os_includes_def)
      with True Some show ?thesis by (simp add: ancestors_loop_step os_includes_def)
    next
      case False
      with Some 1 show ?thesis by (auto simp: ancestors_loop_stop os_includes_def)
    qed
  qed
qed

lemma ancestors_loop_sound:
  "y \<in> set (ancestors_loop m acc cur) \<Longrightarrow>
   y \<in> set acc \<or> (\<exists>i. cur = Some i \<and> (i, y) \<in> (parent_rel m)\<^sup>*)"
proof (induction m acc cur rule: ancestors_loop.induct)
  case (1 m acc cur)
  show ?case
  proof (cases cur)
    case None
    with 1 show ?thesis by (simp add: ancestors_loop_None)
  next
    case (Some i)
    show ?thesis
    proof (cases "i \<noteq> [] \<and> \<not> os_includes acc i")
      case True
      with Some "1.prems" have "y \<in> set (ancestors_loop m (os_union [i] acc) (fmlookup m i))"
        by (simp add: ancestors_loop_step os_includes_def)
      from "1.IH" [OF Some True this]
      have "y \<in> set (os_union [i] acc) \<or> (\<exists>j. fmlookup m i = Some j \<and> (j, y) \<in> (parent_rel m)\<^sup>*)" .
      then show ?thesis
      proof
        assume "y \<in> set (os_union [i] acc)"
        then show ?thesis using Some by (auto simp: set_os_union)
      next
        assume "\<exists>j. fmlookup m i = Some j \<and> (j, y) \<in> (parent_rel m)\<^sup>*"
        then obtain j where j: "fmlookup m i = Some j" "(j, y) \<in> (parent_rel m)\<^sup>*" by blast
        then have "(i, j) \<in> parent_rel m" by (simp add: parent_rel_def)
        with j have "(i, y) \<in> (parent_rel m)\<^sup>*" by (meson converse_rtrancl_into_rtrancl)
        with Some show ?thesis by blast
      qed
    next
      case False
      with Some "1.prems" show ?thesis by (auto simp: ancestors_loop_stop os_includes_def)
    qed
  qed
qed

lemma ancestors_loop_ran:
  "y \<in> set (ancestors_loop m acc cur) \<Longrightarrow>
   y \<in> set acc \<or> cur = Some y \<or> y \<in> fmran' m"
proof (induction m acc cur rule: ancestors_loop.induct)
  case (1 m acc cur)
  show ?case
  proof (cases cur)
    case None
    with 1 show ?thesis by (simp add: ancestors_loop_None)
  next
    case (Some i)
    show ?thesis
    proof (cases "i \<noteq> [] \<and> \<not> os_includes acc i")
      case True
      with Some "1.prems" have "y \<in> set (ancestors_loop m (os_union [i] acc) (fmlookup m i))"
        by (simp add: ancestors_loop_step os_includes_def)
      from "1.IH" [OF Some True this]
      show ?thesis using Some by (auto simp: set_os_union intro: fmran'I)
    next
      case False
      with Some "1.prems" show ?thesis by (auto simp: ancestors_loop_stop os_includes_def)
    qed
  qed
qed

lemma resolveAncestors_ran: "set (resolveAncestors f m) \<subseteq> fmran' m"
  using ancestors_loop_ran [of _ m "[]" "fmlookup m f"]
  by (auto simp: resolveAncestors_def getAncestorsIds_def intro: fmran'I)

lemma resolveAncestors_sound:
  assumes "y \<in> set (resolveAncestors f m)"
  shows "(f, y) \<in> (parent_rel m)\<^sup>+"
proof -
  from assms ancestors_loop_sound [of y m "[]" "fmlookup m f"]
  obtain i where i: "fmlookup m f = Some i" "(i, y) \<in> (parent_rel m)\<^sup>*"
    by (auto simp: resolveAncestors_def getAncestorsIds_def)
  then have "(f, i) \<in> parent_rel m" by (simp add: parent_rel_def)
  with i show ?thesis by (rule_tac rtrancl_into_trancl2)
qed

lemma parent_chain_depth: "parent_chain m x ps \<Longrightarrow> has_depth m x (length ps)"
  by (induction rule: parent_chain.induct) (auto intro: has_depth.intros)

inductive_cases has_depth_zeroE: "has_depth m x 0"

lemma ancestors_loop_chain:
  assumes "acyclic (parent_rel m)"
    and "\<forall>a \<in> set acc. (a, x) \<in> (parent_rel m)\<^sup>*"
    and "\<forall>y. (x, y) \<in> (parent_rel m)\<^sup>+ \<longrightarrow> y \<noteq> []"
    and "distinct acc"
    and "cur = fmlookup m x"
  shows "\<exists>ps. ancestors_loop m acc cur = rev ps @ acc \<and> parent_chain m x ps"
  using assms
proof (induction m acc cur arbitrary: x rule: ancestors_loop.induct)
  case (1 m acc cur)
  show ?case
  proof (cases cur)
    case None
    with "1.prems" have "parent_chain m x []" by (simp add: chain_root)
    with None show ?thesis by (auto simp: ancestors_loop_None)
  next
    case (Some i)
    with "1.prems" have link: "(x, i) \<in> parent_rel m" by (simp add: parent_rel_def)
    then have ne: "i \<noteq> []" using "1.prems"(3) by blast
    have fresh: "i \<notin> set acc"
    proof
      assume "i \<in> set acc"
      with "1.prems"(2) have "(i, x) \<in> (parent_rel m)\<^sup>*" by blast
      with link have "(x, x) \<in> (parent_rel m)\<^sup>+" by (rule rtrancl_into_trancl2)
      with "1.prems"(1) show False by (simp add: acyclic_def)
    qed
    have u: "os_union [i] acc = i # acc"
      using fresh "1.prems"(4) by (simp add: os_union_front)
    have "\<exists>ps. ancestors_loop m (os_union [i] acc) (fmlookup m i) = rev ps @ os_union [i] acc
            \<and> parent_chain m i ps"
    proof (rule "1.IH" [OF Some _ "1.prems"(1)])
      show "i \<noteq> [] \<and> \<not> os_includes acc i" using ne fresh by (simp add: os_includes_def)
      show "\<forall>a \<in> set (os_union [i] acc). (a, i) \<in> (parent_rel m)\<^sup>*"
        using "1.prems"(2) link by (auto simp: u intro: rtrancl_into_rtrancl)
      show "\<forall>y. (i, y) \<in> (parent_rel m)\<^sup>+ \<longrightarrow> y \<noteq> []"
      proof (intro allI impI)
        fix y
        assume "(i, y) \<in> (parent_rel m)\<^sup>+"
        with link have "(x, y) \<in> (parent_rel m)\<^sup>+" by (rule trancl_into_trancl2)
        with "1.prems"(3) show "y \<noteq> []" by blast
      qed
      show "distinct (os_union [i] acc)" using fresh "1.prems"(4) by (simp add: u)
      show "fmlookup m i = fmlookup m i" ..
    qed
    then obtain ps where ps: "ancestors_loop m (i # acc) (fmlookup m i) = rev ps @ i # acc"
      "parent_chain m i ps" by (auto simp: u)
    have "parent_chain m x (i # ps)"
      using Some "1.prems"(5) ps(2) by (intro chain_step) auto
    moreover have "ancestors_loop m acc cur = rev (i # ps) @ acc"
      using Some ne fresh ps(1) by (simp add: ancestors_loop_step u)
    ultimately show ?thesis by blast
  qed
qed

section \<open>The example indexes, evaluated\<close>

lemmas descendants_eval = resolveDescendants_def getDescendantsIds_def descendants_loop_expand
  descendants_loop_Nil descendants_loop_seen descendants_loop_falsy replies_of_def
  fmlookup_of_list

lemmas ancestors_eval = resolveAncestors_def getAncestorsIds_def ancestors_loop_eval os_defs
  fmlookup_of_list

lemma resolveDescendants_ex: "resolveDescendants ''A'' ex_children = Some [''B'', ''D'', ''C'']"
  by (simp add: descendants_eval ex_children_def)

lemma resolveAncestors_ex: "resolveAncestors ''C'' ex_parents = [''A'', ''B'']"
  by (simp add: ancestors_eval ex_parents_def)

lemma resolveThread_stale:
  "resolveThread ''A'' stale_parents stale_children = Some ([''C''], [''B''])"
  by (simp add: resolveThread_def Thread_ids_def getDescendantsIds_def getAncestorsIds_def
        stale_children_def stale_parents_def descendants_loop_expand descendants_loop_Nil
        replies_of_def fmlookup_of_list os_defs ancestors_loop_eval)

lemma parent_rel_ex_parents: "parent_rel ex_parents = {(''B'', ''A''), (''C'', ''B'')}"
  by (auto simp: parent_rel_def ex_parents_def fmlookup_of_list split: if_splits)

lemma acyclic_ex_parents: "acyclic (parent_rel ex_parents)"
proof (rule acyclicI_order)
  fix a b
  assume "(a, b) \<in> parent_rel ex_parents"
  then have "(a = ''B'' \<and> b = ''A'') \<or> (a = ''C'' \<and> b = ''B'')"
    by (simp add: parent_rel_ex_parents)
  then show "length (resolveAncestors b ex_parents) < length (resolveAncestors a ex_parents)"
    by (auto simp: ancestors_eval ex_parents_def)
qed

lemma reply_tree_ex: "reply_tree ex_children ex_tree"
  by (simp add: reply_tree_def ex_tree_def ex_children_def replies_of_def fmlookup_of_list)

lemma child_rel_shared:
  "child_rel shared_children = {(''A'', ''B''), (''A'', ''C''), (''A'', ''D''), (''B'', ''C'')}"
  by (auto simp: child_rel_def shared_children_def fmlookup_of_list split: if_splits)

lemma acyclic_shared: "acyclic (child_rel shared_children)"
proof (rule acyclicI_order)
  fix a b
  assume "(a, b) \<in> child_rel shared_children"
  then have "(a = ''A'' \<and> b \<in> {''B'', ''C'', ''D''}) \<or> (a = ''B'' \<and> b = ''C'')"
    by (auto simp: child_rel_shared)
  then show "length (replies_of shared_children b) < length (replies_of shared_children a)"
    by (auto simp: replies_of_def shared_children_def fmlookup_of_list)
qed

lemma child_rel_crossed:
  "child_rel crossed_children =
     {(''A'', ''B''), (''A'', ''C''), (''B'', ''D''), (''C'', ''E''), (''C'', ''D'')}"
  by (auto simp: child_rel_def crossed_children_def fmlookup_of_list split: if_splits)

lemma acyclic_crossed: "acyclic (child_rel crossed_children)"
proof (rule acyclicI_order)
  fix a b
  assume "(a, b) \<in> child_rel crossed_children"
  then have "(a = ''A'' \<and> b \<in> {''B'', ''C''}) \<or> (a = ''B'' \<and> b = ''D'') \<or>
             (a = ''C'' \<and> b \<in> {''E'', ''D''})"
    by (auto simp: child_rel_crossed)
  then show "(if b = ''A'' then 2 else if b = ''B'' \<or> b = ''C'' then 1 else (0::nat))
           < (if a = ''A'' then 2 else if a = ''B'' \<or> a = ''C'' then 1 else 0)"
    by auto
qed

lemma parent_rel_empty_id: "parent_rel empty_id_parents = {(''B'', [])}"
  by (auto simp: parent_rel_def empty_id_parents_def fmlookup_of_list split: if_splits)

section \<open>Claims about resolveAncestors\<close>

text \<open>
  C7. On every parent index, cyclic ones included, \<open>resolveAncestors\<close> is a total
  function (the loop is defined with a termination proof), its result has no
  duplicates, and its length is at most the number of distinct ids that occur in the
  parent index. With the links A\<rightarrow>B and B\<rightarrow>A and the focal id A the result is [A, B].
\<close>

theorem resolveAncestors_bounded:
  "distinct (resolveAncestors focalId parentIndex) \<and>
   length (resolveAncestors focalId parentIndex) \<le> card (index_ids parentIndex) \<and>
   resolveAncestors ''A'' cyclic_parents = [''A'', ''B'']"
proof -
  have cyc: "resolveAncestors ''A'' cyclic_parents = [''A'', ''B'']"
    by (simp add: ancestors_eval cyclic_parents_def)
  let ?r = "resolveAncestors focalId parentIndex"
  have d: "distinct ?r"
    by (simp add: resolveAncestors_def getAncestorsIds_def ancestors_loop_distinct)
  have fin: "finite (index_ids parentIndex)"
    by (simp add: index_ids_def fmran'_alt_def)
  have "set ?r \<subseteq> index_ids parentIndex"
    using resolveAncestors_ran [of focalId parentIndex] by (auto simp: index_ids_def)
  then have "card (set ?r) \<le> card (index_ids parentIndex)"
    using fin by (rule card_mono [rotated])
  with d cyc show ?thesis by (simp add: distinct_card)
qed

text \<open>
  C3 (as amended). \<open>resolveAncestors\<close> returns only proper ancestors of the focal id
  (ids reached from it by one or more parent links). So the focal id is absent from
  the result whenever no cycle of parent links leads back to it; and deleting the
  focal id, the first thing the thread selector does with the result, removes it in
  the remaining case.
\<close>

theorem resolveAncestors_focal:
  "(\<forall>y \<in> set (resolveAncestors focalId parentIndex). (focalId, y) \<in> (parent_rel parentIndex)\<^sup>+) \<and>
   ((focalId, focalId) \<notin> (parent_rel parentIndex)\<^sup>+ \<longrightarrow>
      focalId \<notin> set (resolveAncestors focalId parentIndex)) \<and>
   focalId \<notin> set (os_delete (resolveAncestors focalId parentIndex) focalId)"
  using resolveAncestors_sound [of _ focalId parentIndex]
  by (auto simp: os_delete_def)

theorem resolveAncestors_focal_witness:
  "(''C'', ''C'') \<notin> (parent_rel ex_parents)\<^sup>+ \<and>
   ''C'' \<notin> set (resolveAncestors ''C'' ex_parents) \<and>
   (''C'', ''A'') \<in> (parent_rel ex_parents)\<^sup>+"
proof -
  have no_cycle: "(''C'', ''C'') \<notin> (parent_rel ex_parents)\<^sup>+"
    using acyclic_ex_parents by (simp add: acyclic_def)
  have in_result: "''A'' \<in> set (resolveAncestors ''C'' ex_parents)"
    by (simp add: resolveAncestors_ex)
  from resolveAncestors_focal [of "''C''" ex_parents] no_cycle in_result
  show ?thesis by blast
qed

text \<open>
  C3 (as stated) fails: with the parent links A\<rightarrow>B and B\<rightarrow>A the walk from the parent of A
  meets A before it meets an id for the second time, and A is in the result.
\<close>

theorem resolveAncestors_focal_counterexample:
  "''A'' \<in> set (resolveAncestors ''A'' cyclic_parents)"
  by (simp add: resolveAncestors_def getAncestorsIds_def cyclic_parents_def os_defs
        fmlookup_of_list ancestors_loop_eval)

text \<open>
  C6 (as amended). On an acyclic parent index in which no ancestor of the focal id is
  the empty string, \<open>resolveAncestors\<close> returns the whole parent chain of the focal
  id, root first, and its length is the depth of the focal id. For B \<mapsto> A, C \<mapsto> B and
  the focal id C the result is [A, B].
\<close>

theorem resolveAncestors_parent_chain:
  "(acyclic (parent_rel parentIndex) \<and>
    (\<forall>y. (focalId, y) \<in> (parent_rel parentIndex)\<^sup>+ \<longrightarrow> y \<noteq> []) \<longrightarrow>
      parent_chain parentIndex focalId (rev (resolveAncestors focalId parentIndex)) \<and>
      has_depth parentIndex focalId (length (resolveAncestors focalId parentIndex))) \<and>
   resolveAncestors ''C'' ex_parents = [''A'', ''B'']"
proof (intro conjI impI)
  assume h: "acyclic (parent_rel parentIndex) \<and>
    (\<forall>y. (focalId, y) \<in> (parent_rel parentIndex)\<^sup>+ \<longrightarrow> y \<noteq> [])"
  then obtain ps where ps: "resolveAncestors focalId parentIndex = rev ps"
    "parent_chain parentIndex focalId ps"
    using ancestors_loop_chain [of parentIndex "[]" focalId "fmlookup parentIndex focalId"]
    by (auto simp: resolveAncestors_def getAncestorsIds_def)
  then show "parent_chain parentIndex focalId (rev (resolveAncestors focalId parentIndex))"
    by simp
  from ps show "has_depth parentIndex focalId (length (resolveAncestors focalId parentIndex))"
    using parent_chain_depth [of parentIndex focalId ps] by simp
next
  show "resolveAncestors ''C'' ex_parents = [''A'', ''B'']" by (rule resolveAncestors_ex)
qed

theorem resolveAncestors_parent_chain_witness:
  "acyclic (parent_rel ex_parents) \<and>
   parent_chain ex_parents ''C'' [''B'', ''A''] \<and>
   has_depth ex_parents ''C'' 2"
proof -
  have a: "acyclic (parent_rel ex_parents)" by (rule acyclic_ex_parents)
  have n: "\<forall>y. (''C'', y) \<in> (parent_rel ex_parents)\<^sup>+ \<longrightarrow> y \<noteq> []"
  proof (intro allI impI)
    fix y
    assume "(''C'', y) \<in> (parent_rel ex_parents)\<^sup>+"
    then obtain z where "(z, y) \<in> parent_rel ex_parents" by (meson tranclD2)
    then show "y \<noteq> []" by (auto simp: parent_rel_ex_parents)
  qed
  from resolveAncestors_parent_chain [of ex_parents "''C''"] a n
  have "parent_chain ex_parents ''C'' (rev (resolveAncestors ''C'' ex_parents)) \<and>
        has_depth ex_parents ''C'' (length (resolveAncestors ''C'' ex_parents))"
    by blast
  with a show ?thesis by (simp add: resolveAncestors_ex numeral_2_eq_2)
qed

text \<open>
  C6 (as stated) fails: in the acyclic parent index B \<mapsto> "" the parent chain of B is
  [""] and B has depth 1, but the loop condition takes the empty string for no id at
  all and the result is empty, which is not the depth of B.
\<close>

theorem resolveAncestors_empty_id_counterexample:
  "acyclic (parent_rel empty_id_parents) \<and>
   parent_chain empty_id_parents ''B'' [[]] \<and>
   has_depth empty_id_parents ''B'' 1 \<and>
   resolveAncestors ''B'' empty_id_parents = [] \<and>
   \<not> has_depth empty_id_parents ''B'' (length (resolveAncestors ''B'' empty_id_parents))"
proof -
  have r: "resolveAncestors ''B'' empty_id_parents = []"
    by (simp add: ancestors_eval empty_id_parents_def)
  have "\<not> has_depth empty_id_parents ''B'' 0"
    by (auto elim!: has_depth_zeroE simp: empty_id_parents_def fmlookup_of_list)
  then have "\<not> has_depth empty_id_parents ''B'' (length (resolveAncestors ''B'' empty_id_parents))"
    by (simp add: r)
  moreover
  have "acyclic (parent_rel empty_id_parents)"
    by (rule acyclicI_order [where f = length]) (simp add: parent_rel_empty_id)
  moreover have c: "parent_chain empty_id_parents ''B'' [[]]"
    by (intro chain_step chain_root) (simp_all add: empty_id_parents_def fmlookup_of_list)
  moreover from parent_chain_depth [OF c] have "has_depth empty_id_parents ''B'' 1" by simp
  ultimately show ?thesis using r by simp
qed

section \<open>Claims about resolveDescendants\<close>

text \<open>
  C1 (the code at the failing input). The status A whose replies are [A]: the loop
  never returns.
\<close>

theorem resolveDescendants_self_reply_diverges:
  "resolveDescendants ''A'' self_children = None"
  by (simp add: resolveDescendants_def getDescendantsIds_def self_children_def
        descendants_loop_diverges [where rs = "[]"])

text \<open>
  C10. Whenever \<open>resolveDescendants\<close> returns, every id of the result is reachable
  from the focal id by following links of the child index.
\<close>

theorem resolveDescendants_reachable:
  assumes "resolveDescendants focalId childIndex = Some r"
  shows "\<forall>x \<in> set r. (focalId, x) \<in> (child_rel childIndex)\<^sup>*"
  using descendants_loop_sound [of childIndex focalId "[focalId]" "[]" r] assms
  by (simp add: resolveDescendants_def getDescendantsIds_def)

theorem resolveDescendants_reachable_witness:
  "resolveDescendants ''A'' ex_children = Some [''B'', ''D'', ''C''] \<and>
   (''A'', ''D'') \<in> (child_rel ex_children)\<^sup>*"
proof -
  have h: "resolveDescendants ''A'' ex_children = Some [''B'', ''D'', ''C'']"
    by (rule resolveDescendants_ex)
  from resolveDescendants_reachable [OF h] have "(''A'', ''D'') \<in> (child_rel ex_children)\<^sup>*"
    by simp
  with h show ?thesis by simp
qed

text \<open>
  C2 (as amended). When the child index holds a reply tree under the focal id (ids
  distinct and non-empty, so every id is reached along one path only),
  \<open>resolveDescendants\<close> returns, and its result holds every id reachable from the
  replies of the focal id exactly once. When the id taken from the work list is
  already in the result, the loop ends there: the result is returned as it stands and
  the rest of the work list is dropped.
\<close>

theorem resolveDescendants_tree_complete:
  "(reply_tree c t \<longrightarrow>
     (\<exists>r. resolveDescendants (root t) c = Some r \<and> distinct r \<and>
          set r = {y. (root t, y) \<in> (child_rel c)\<^sup>+})) \<and>
   (i \<in> set acc \<longrightarrow> descendants_loop c f (i # rest) acc = Some acc)"
proof (intro conjI impI)
  assume t: "reply_tree c t"
  then have "distinct (tl (preorder t))"
    by (simp add: reply_tree_def distinct_tl)
  moreover from t have "set (tl (preorder t)) = {y. (root t, y) \<in> (child_rel c)\<^sup>+}"
    by (simp add: reply_tree_def holds_tree_descendant_set)
  ultimately show "\<exists>r. resolveDescendants (root t) c = Some r \<and> distinct r \<and>
          set r = {y. (root t, y) \<in> (child_rel c)\<^sup>+}"
    using reply_tree_run [OF t] by (simp add: resolveDescendants_def)
next
  assume "i \<in> set acc"
  then show "descendants_loop c f (i # rest) acc = Some acc"
    by (rule descendants_loop_seen)
qed

theorem resolveDescendants_tree_complete_witness:
  "reply_tree ex_children ex_tree \<and>
   (\<exists>r. resolveDescendants (root ex_tree) ex_children = Some r \<and> distinct r \<and>
        set r = {y. (root ex_tree, y) \<in> (child_rel ex_children)\<^sup>+}) \<and>
   ''C'' \<in> set [''B'', ''C''] \<and>
   descendants_loop shared_children ''A'' [''C'', ''D''] [''B'', ''C''] = Some [''B'', ''C'']"
proof -
  have t: "reply_tree ex_children ex_tree" by (rule reply_tree_ex)
  have m: "''C'' \<in> set [''B'', ''C'']" by simp
  from resolveDescendants_tree_complete [where c = ex_children and t = ex_tree] t
  have "\<exists>r. resolveDescendants (root ex_tree) ex_children = Some r \<and> distinct r \<and>
        set r = {y. (root ex_tree, y) \<in> (child_rel ex_children)\<^sup>+}"
    by blast
  moreover
  from resolveDescendants_tree_complete [where i = "''C''" and acc = "[''B'', ''C'']"
      and c = shared_children and f = "''A''" and rest = "[''D'']"] m
  have "descendants_loop shared_children ''A'' [''C'', ''D''] [''B'', ''C''] = Some [''B'', ''C'']"
    by blast
  ultimately show ?thesis using t m by blast
qed

text \<open>
  C2 (as stated) fails: the child index A \<mapsto> [B, C, D], B \<mapsto> [C] has no cycle and D is a
  reply of A, but the loop ends when it takes C from the work list for the second
  time, and D is never reached.
\<close>

theorem resolveDescendants_shared_reply_counterexample:
  "acyclic (child_rel shared_children) \<and>
   (''A'', ''D'') \<in> (child_rel shared_children)\<^sup>+ \<and>
   resolveDescendants ''A'' shared_children = Some [''B'', ''C''] \<and>
   ''D'' \<notin> set [''B'', ''C'']"
proof -
  have "(''A'', ''D'') \<in> child_rel shared_children"
    by (simp add: child_rel_shared)
  then have "(''A'', ''D'') \<in> (child_rel shared_children)\<^sup>+" ..
  moreover have "resolveDescendants ''A'' shared_children = Some [''B'', ''C'']"
    by (simp add: descendants_eval shared_children_def)
  ultimately show ?thesis by (simp add: acyclic_shared)
qed

text \<open>
  C5 (as amended). Reversing the replies and unshifting them one by one puts them in
  front of the work list in their own order; a round that expands an id therefore
  continues with the replies of that id before everything that was waiting. When the
  child index holds a reply tree under the focal id, the result is the pre-order of
  the tree without its root: each reply is followed by its whole subtree before its
  next sibling. For A \<mapsto> [B, C], B \<mapsto> [D] and the focal id A the result is [B, D, C].
\<close>

theorem resolveDescendants_depth_first:
  "unshift_all replies ids = replies @ ids \<and>
   (i \<noteq> [] \<and> i \<notin> set acc \<and> i \<noteq> f \<longrightarrow>
      descendants_loop c f (i # ids) acc =
      descendants_loop c f (replies_of c i @ ids) (acc @ [i])) \<and>
   (reply_tree c t \<longrightarrow> resolveDescendants (root t) c = Some (tl (preorder t))) \<and>
   resolveDescendants ''A'' ex_children = Some [''B'', ''D'', ''C'']"
proof (intro conjI impI)
  show "unshift_all replies ids = replies @ ids" by (rule unshift_all_append)
next
  assume "i \<noteq> [] \<and> i \<notin> set acc \<and> i \<noteq> f"
  then show "descendants_loop c f (i # ids) acc =
      descendants_loop c f (replies_of c i @ ids) (acc @ [i])"
    by (subst descendants_loop_expand) auto
next
  assume "reply_tree c t"
  then show "resolveDescendants (root t) c = Some (tl (preorder t))"
    by (simp add: resolveDescendants_def reply_tree_run)
next
  show "resolveDescendants ''A'' ex_children = Some [''B'', ''D'', ''C'']"
    by (rule resolveDescendants_ex)
qed

theorem resolveDescendants_depth_first_witness:
  "reply_tree ex_children ex_tree \<and>
   resolveDescendants (root ex_tree) ex_children = Some (tl (preorder ex_tree)) \<and>
   tl (preorder ex_tree) = [''B'', ''D'', ''C''] \<and>
   descendants_loop ex_children ''A'' [''B'', ''C''] [] =
     descendants_loop ex_children ''A'' [''D'', ''C''] [''B'']"
proof -
  have t: "reply_tree ex_children ex_tree" by (rule reply_tree_ex)
  have g: "''B'' \<noteq> [] \<and> ''B'' \<notin> set [] \<and> ''B'' \<noteq> ''A''" by simp
  have k: "replies_of ex_children ''B'' = [''D'']"
    by (simp add: replies_of_def ex_children_def fmlookup_of_list)
  from resolveDescendants_depth_first [where i = "''B''" and acc = "[]" and f = "''A''"
      and c = ex_children and ids = "[''C'']" and t = ex_tree] t g k
  show ?thesis by (simp add: ex_tree_def)
qed

text \<open>
  C5 (as stated) fails: in the acyclic child index A \<mapsto> [B, C], B \<mapsto> [D], C \<mapsto> [E, D] the
  replies of C are E and then D, but D is emitted under B, before C itself and before
  its earlier sibling E: the result is [B, D, C, E], not C followed by E and D.
\<close>

theorem resolveDescendants_crossed_order_counterexample:
  "acyclic (child_rel crossed_children) \<and>
   replies_of crossed_children ''C'' = [''E'', ''D''] \<and>
   resolveDescendants ''A'' crossed_children = Some [''B'', ''D'', ''C'', ''E'']"
proof -
  have k: "replies_of crossed_children ''C'' = [''E'', ''D'']"
    by (simp add: replies_of_def crossed_children_def fmlookup_of_list)
  have r: "resolveDescendants ''A'' crossed_children = Some [''B'', ''D'', ''C'', ''E'']"
    by (simp add: descendants_eval crossed_children_def)
  show ?thesis by (simp add: acyclic_crossed k r)
qed

section \<open>Claims about resolveThread\<close>

text \<open>
  C4. Whatever the two indexes say, every pair of sequences that \<open>resolveThread\<close>
  produces has no id in common and neither sequence contains the focal id; and a pair
  is produced on every input on which the descendants loop returns.
\<close>

theorem resolveThread_disjoint:
  "(\<not> (focalId \<noteq> [] \<and> (\<exists>rs. fmlookup childIndex focalId = Some (focalId # rs))) \<longrightarrow>
      (\<exists>a d. resolveThread focalId parentIndex childIndex = Some (a, d))) \<and>
   (resolveThread focalId parentIndex childIndex = Some (a, d) \<longrightarrow>
      set a \<inter> set d = {} \<and> focalId \<notin> set a \<and> focalId \<notin> set d)"
proof (rule conjI; rule impI)
  assume "\<not> (focalId \<noteq> [] \<and> (\<exists>rs. fmlookup childIndex focalId = Some (focalId # rs)))"
  then have "resolveDescendants focalId childIndex \<noteq> None"
    by (simp add: resolveDescendants_None_iff)
  then show "\<exists>a d. resolveThread focalId parentIndex childIndex = Some (a, d)"
    by (auto simp: resolveThread_def Thread_ids_def Let_def resolveDescendants_def)
next
  assume "resolveThread focalId parentIndex childIndex = Some (a, d)"
  then show "set a \<inter> set d = {} \<and> focalId \<notin> set a \<and> focalId \<notin> set d"
    by (auto simp: resolveThread_def Thread_ids_def Let_def os_delete_def os_subtract_def
             split: option.splits)
qed

theorem resolveThread_disjoint_witness:
  "resolveThread ''A'' stale_parents stale_children = Some ([''C''], [''B'']) \<and>
   set [''C''] \<inter> set [''B''] = {} \<and> ''A'' \<notin> set [''C''] \<and> ''A'' \<notin> set [''B'']"
proof -
  have h: "resolveThread ''A'' stale_parents stale_children = Some ([''C''], [''B''])"
    by (rule resolveThread_stale)
  from resolveThread_disjoint [of "''A''" stale_children stale_parents "[''C'']" "[''B'']"] h
  have "set [''C''] \<inter> set [''B''] = {} \<and> ''A'' \<notin> set [''C''] \<and> ''A'' \<notin> set [''B'']"
    by blast
  with h show ?thesis by blast
qed

text \<open>
  C9. In the result of \<open>resolveThread\<close> the ancestors are the raw ancestors without
  the focal id and without every raw descendant; the descendants are the raw
  descendants without the focal id and without the ancestors that are left. So an
  id other than the focal id that is both a raw ancestor and a raw descendant is
  among the descendants of the result and not among its ancestors.
\<close>

theorem resolveThread_shared_id:
  assumes "resolveThread focalId parentIndex childIndex = Some (a, d)"
    and "resolveDescendants focalId childIndex = Some ds"
    and "x \<in> set (resolveAncestors focalId parentIndex)" and "x \<in> set ds" and "x \<noteq> focalId"
  shows "a = os_subtract (os_delete (resolveAncestors focalId parentIndex) focalId) ds \<and>
         d = os_subtract (os_delete ds focalId) a \<and>
         x \<in> set d \<and> x \<notin> set a"
  using assms
  by (auto simp: resolveThread_def Thread_ids_def Let_def os_delete_def os_subtract_def
        resolveDescendants_def resolveAncestors_def split: option.splits)

theorem resolveThread_shared_id_witness:
  "resolveThread ''A'' stale_parents stale_children = Some ([''C''], [''B'']) \<and>
   resolveDescendants ''A'' stale_children = Some [''B''] \<and>
   ''B'' \<in> set (resolveAncestors ''A'' stale_parents) \<and>
   ''B'' \<in> set [''B''] \<and> ''B'' \<notin> set [''C'']"
proof -
  have t: "resolveThread ''A'' stale_parents stale_children = Some ([''C''], [''B''])"
    by (rule resolveThread_stale)
  have ds: "resolveDescendants ''A'' stale_children = Some [''B'']"
    by (simp add: descendants_eval stale_children_def)
  have an: "''B'' \<in> set (resolveAncestors ''A'' stale_parents)"
    by (simp add: ancestors_eval stale_parents_def)
  have m: "''B'' \<in> set [''B'']" and ne: "''B'' \<noteq> ''A''"
    by simp_all
  from resolveThread_shared_id [OF t ds an m ne]
  have "''B'' \<in> set [''B''] \<and> ''B'' \<notin> set [''C'']"
    by blast
  with t ds an show ?thesis by simp
qed

end
